theory Spec2Isabelle
  imports Main
begin

section \<open>The Scratchpad component as a state machine\<close>

text \<open>
  The source is the React function component \<^verbatim>\<open>Scratchpad\<close> of
  \<^verbatim>\<open>desktop/src/components/Scratchpad.tsx\<close>. Its behaviour is spread over two
  \<^verbatim>\<open>useState\<close> cells, three \<^verbatim>\<open>useRef\<close> cells, seven \<^verbatim>\<open>useEffect\<close> hooks, one
  \<^verbatim>\<open>setTimeout\<close> callback and the \<^verbatim>\<open>onChange\<close> handler. The embedding keeps each of
  them as one definition, and adds the part of React and of the browser that drives them:
  the comparison of dependency arrays, the order of cleanups and effects in a commit, the
  re-render that follows a state update, and the timer queue.
\<close>

subsection \<open>What a render receives\<close>

text \<open>
  The props and the results of the two data hooks \<^verbatim>\<open>useScratchpad\<close> and
  \<^verbatim>\<open>useSaveScratchpad\<close>. Both hooks live in \<^verbatim>\<open>../lib/hooks\<close>, outside the component,
  so what they return at a render is an input. \<open>content\<close> is \<^verbatim>\<open>string | undefined\<close>;
  \<open>saveMutation\<close> stands for the identity of the object the hook returned (dependency
  arrays compare it with \<^verbatim>\<open>Object.is\<close>), \<open>isPending\<close> for its field. The prop
  \<^verbatim>\<open>home\<close> is only handed on to the hooks and is left out. A render that the
  component causes itself, by a state update, sees the hook results of the latest
  render; a change in what the hooks return (another identifier, a resolved load, a
  save that settles, another object from the save hook) is an event of its own.
\<close>

record hooks =
  workspaceId :: string
  content :: "string option"
  isLoading :: bool
  error :: "string option"
  saveMutation :: nat
  isPending :: bool

subsection \<open>Timers and the component instance\<close>

text \<open>
  A pending \<^verbatim>\<open>setTimeout\<close>: its handle, the milliseconds left, and the two variables
  the callback closes over (\<^verbatim>\<open>workspaceId\<close> and \<^verbatim>\<open>value\<close> of the render that armed it).
\<close>

record timer =
  handle :: nat
  remaining :: nat
  t_wsId :: string
  t_content :: string

text \<open>
  The instance: the latest hook results, the two state cells, the three refs, the
  dependency values of the last committed render, the handle held by the cleanup the
  debounce effect returned (\<open>None\<close> when it returned nothing), the browser's timer queue,
  and what an observer outside can count: the calls of \<^verbatim>\<open>saveMutation.mutate\<close> in
  order, of \<^verbatim>\<open>setTimeout\<close> and of \<^verbatim>\<open>clearTimeout\<close>.
\<close>

record fiber =
  env :: hooks
  value_st :: string
  dirty :: bool
  valueRef :: string
  dirtyRef :: bool
  workspaceIdRef :: string
  dep_value :: string
  dep_dirty :: bool
  dep_workspaceId :: string
  dep_content :: "string option"
  dep_saveMutation :: nat
  timer_cleanup :: "nat option"
  timers :: "timer list"
  next_handle :: nat
  saves :: "(string \<times> string) list"
  arms :: nat
  cancels :: nat

text \<open>What the closures of one render see: the hook results and both state cells.\<close>

record snapshot =
  r_workspaceId :: string
  r_content :: "string option"
  r_saveMutation :: nat
  r_value :: string
  r_dirty :: bool

definition snapshot_of :: "fiber \<Rightarrow> snapshot" where
  "snapshot_of s =
     \<lparr>r_workspaceId = workspaceId (env s), r_content = content (env s),
      r_saveMutation = saveMutation (env s), r_value = value_st s, r_dirty = dirty s\<rparr>"

subsection \<open>The primitives the component calls\<close>

definition setValue :: "string \<Rightarrow> fiber \<Rightarrow> fiber" where
  "setValue v s = s\<lparr>value_st := v\<rparr>"

definition setDirty :: "bool \<Rightarrow> fiber \<Rightarrow> fiber" where
  "setDirty d s = s\<lparr>dirty := d\<rparr>"

definition mutate :: "string \<Rightarrow> string \<Rightarrow> fiber \<Rightarrow> fiber" where
  "mutate wsId c s = s\<lparr>saves := saves s @ [(wsId, c)]\<rparr>"

definition quiet_period :: nat where
  "quiet_period = 1000"

definition setTimeout :: "string \<Rightarrow> string \<Rightarrow> nat \<Rightarrow> fiber \<Rightarrow> fiber" where
  "setTimeout wsId c ms s =
     s\<lparr>timers := timers s @ [\<lparr>handle = next_handle s, remaining = ms, t_wsId = wsId, t_content = c\<rparr>],
       next_handle := Suc (next_handle s),
       arms := Suc (arms s)\<rparr>"

definition clearTimeout :: "nat \<Rightarrow> fiber \<Rightarrow> fiber" where
  "clearTimeout h s =
     s\<lparr>timers := filter (\<lambda>t. handle t \<noteq> h) (timers s), cancels := Suc (cancels s)\<rparr>"

subsection \<open>The effects, in the order of the source\<close>

text \<open>Lines 24 to 26: the three effects that keep the refs in sync.\<close>

definition sync_valueRef :: "snapshot \<Rightarrow> fiber \<Rightarrow> fiber" where
  "sync_valueRef r s = s\<lparr>valueRef := r_value r\<rparr>"

definition sync_dirtyRef :: "snapshot \<Rightarrow> fiber \<Rightarrow> fiber" where
  "sync_dirtyRef r s = s\<lparr>dirtyRef := r_dirty r\<rparr>"

definition sync_workspaceIdRef :: "snapshot \<Rightarrow> fiber \<Rightarrow> fiber" where
  "sync_workspaceIdRef r s = s\<lparr>workspaceIdRef := r_workspaceId r\<rparr>"

text \<open>
  Lines 29 to 35: the effect body only returns a cleanup; the cleanup reads the refs at
  the moment it runs.
\<close>

definition unmount_cleanup :: "fiber \<Rightarrow> fiber" where
  "unmount_cleanup s =
     (if dirtyRef s then mutate (workspaceIdRef s) (valueRef s) s else s)"

text \<open>Lines 38 to 40.\<close>

definition reset_effect :: "snapshot \<Rightarrow> fiber \<Rightarrow> fiber" where
  "reset_effect r s = setDirty False s"

text \<open>Lines 43 to 47.\<close>

definition sync_effect :: "snapshot \<Rightarrow> fiber \<Rightarrow> fiber" where
  "sync_effect r s =
     (case r_content r of
        None \<Rightarrow> s
      | Some c \<Rightarrow> if \<not> r_dirty r then setValue c s else s)"

text \<open>
  Lines 50 to 57: the debounce effect, the callback of its timer, and its cleanup. The
  callback is stored in the queue as the pair it closes over.
\<close>

definition debounce_effect :: "snapshot \<Rightarrow> fiber \<Rightarrow> fiber" where
  "debounce_effect r s =
     (if \<not> r_dirty r then s\<lparr>timer_cleanup := None\<rparr>
      else (setTimeout (r_workspaceId r) (r_value r) quiet_period s)
             \<lparr>timer_cleanup := Some (next_handle s)\<rparr>)"

definition timer_callback :: "timer \<Rightarrow> fiber \<Rightarrow> fiber" where
  "timer_callback t s = setDirty False (mutate (t_wsId t) (t_content t) s)"

definition debounce_cleanup :: "fiber \<Rightarrow> fiber" where
  "debounce_cleanup s =
     (case timer_cleanup s of None \<Rightarrow> s | Some h \<Rightarrow> clearTimeout h s)"

text \<open>Line 147: the text of the status footer.\<close>

definition status_text :: "bool \<Rightarrow> bool \<Rightarrow> string" where
  "status_text pending d = (if pending then ''Saving...'' else if d then ''Unsaved'' else ''Saved'')"

text \<open>Lines 64, 65 and 118 to 149: what the component returns, reduced to what varies.\<close>

datatype view = Loading_view | Error_view string | Editor_view string string

definition render :: "fiber \<Rightarrow> view" where
  "render s =
     (if isLoading (env s) then Loading_view
      else case error (env s) of
             Some msg \<Rightarrow> Error_view msg
           | None \<Rightarrow> Editor_view (value_st s) (status_text (isPending (env s)) (dirty s)))"

subsection \<open>React: commit, re-render, mount, unmount\<close>

text \<open>
  An effect runs when the commit is the first one or when one of its dependencies differs
  (\<^verbatim>\<open>Object.is\<close>) from the value the last committed render had.
\<close>

definition ch_value :: "bool \<Rightarrow> fiber \<Rightarrow> bool" where
  "ch_value first s = (first \<or> value_st s \<noteq> dep_value s)"

definition ch_dirty :: "bool \<Rightarrow> fiber \<Rightarrow> bool" where
  "ch_dirty first s = (first \<or> dirty s \<noteq> dep_dirty s)"

definition ch_workspaceId :: "bool \<Rightarrow> fiber \<Rightarrow> bool" where
  "ch_workspaceId first s = (first \<or> workspaceId (env s) \<noteq> dep_workspaceId s)"

definition ch_content :: "bool \<Rightarrow> fiber \<Rightarrow> bool" where
  "ch_content first s = (first \<or> content (env s) \<noteq> dep_content s)"

definition ch_saveMutation :: "bool \<Rightarrow> fiber \<Rightarrow> bool" where
  "ch_saveMutation first s = (first \<or> saveMutation (env s) \<noteq> dep_saveMutation s)"

definition ch_sync :: "bool \<Rightarrow> fiber \<Rightarrow> bool" where
  "ch_sync first s = (ch_content first s \<or> ch_dirty first s \<or> ch_workspaceId first s)"

definition ch_debounce :: "bool \<Rightarrow> fiber \<Rightarrow> bool" where
  "ch_debounce first s =
     (ch_value first s \<or> ch_dirty first s \<or> ch_workspaceId first s \<or> ch_saveMutation first s)"

definition run_if :: "bool \<Rightarrow> (fiber \<Rightarrow> fiber) \<Rightarrow> fiber \<Rightarrow> fiber" where
  "run_if b f s = (if b then f s else s)"

definition store_deps :: "snapshot \<Rightarrow> fiber \<Rightarrow> fiber" where
  "store_deps r s =
     s\<lparr>dep_value := r_value r, dep_dirty := r_dirty r, dep_workspaceId := r_workspaceId r,
       dep_content := r_content r, dep_saveMutation := r_saveMutation r\<rparr>"

text \<open>
  One commit. The closures are those of the render being committed (\<open>snapshot_of\<close>).
  React first runs the cleanups of all effects that are about to run again, in the order
  of declaration, then the effect bodies, in the order of declaration. A \<^verbatim>\<open>setState\<close>
  inside an effect only writes the cell; the render that is being committed keeps its
  own values.
\<close>

definition commit :: "bool \<Rightarrow> fiber \<Rightarrow> fiber" where
  "commit first s =
     (let r = snapshot_of s;
          s1 = run_if (ch_saveMutation first s \<and> \<not> first) unmount_cleanup s;
          s2 = run_if (ch_debounce first s \<and> \<not> first) debounce_cleanup s1;
          s3 = run_if (ch_value first s) (sync_valueRef r) s2;
          s4 = run_if (ch_dirty first s) (sync_dirtyRef r) s3;
          s5 = run_if (ch_workspaceId first s) (sync_workspaceIdRef r) s4;
          s6 = run_if (ch_workspaceId first s) (reset_effect r) s5;
          s7 = run_if (ch_sync first s) (sync_effect r) s6;
          s8 = run_if (ch_debounce first s) (debounce_effect r) s7
      in store_deps r s8)"

text \<open>
  After a commit React renders again as long as a state cell differs from the value the
  committed render saw. The hook results are those of the latest render.
\<close>

definition pending_passes :: "fiber \<Rightarrow> nat" where
  "pending_passes s =
     (if ch_workspaceId False s \<or> ch_content False s \<or> ch_saveMutation False s then 3
      else if ch_dirty False s then 2
      else if ch_value False s then 1
      else 0)"


text \<open>Each conditional effect as one record update, for the proofs.\<close>

lemma unmount_cleanup_upd:
  "unmount_cleanup s =
     s\<lparr>saves := (if dirtyRef s then saves s @ [(workspaceIdRef s, valueRef s)] else saves s)\<rparr>"
  by (simp add: unmount_cleanup_def mutate_def)

lemma debounce_cleanup_upd:
  "debounce_cleanup s =
     s\<lparr>timers := (case timer_cleanup s of None \<Rightarrow> timers s
                   | Some h \<Rightarrow> filter (\<lambda>t. handle t \<noteq> h) (timers s)),
       cancels := (case timer_cleanup s of None \<Rightarrow> cancels s | Some h \<Rightarrow> Suc (cancels s))\<rparr>"
  by (simp add: debounce_cleanup_def clearTimeout_def split: option.split)

lemma sync_effect_upd:
  "sync_effect r s =
     s\<lparr>value_st := (case r_content r of None \<Rightarrow> value_st s
                     | Some c \<Rightarrow> if r_dirty r then value_st s else c)\<rparr>"
  by (simp add: sync_effect_def setValue_def split: option.split)

lemma debounce_effect_upd:
  "debounce_effect r s =
     s\<lparr>timers := (if r_dirty r
                   then timers s @ [\<lparr>handle = next_handle s, remaining = quiet_period,
                                      t_wsId = r_workspaceId r, t_content = r_value r\<rparr>]
                   else timers s),
       next_handle := (if r_dirty r then Suc (next_handle s) else next_handle s),
       arms := (if r_dirty r then Suc (arms s) else arms s),
       timer_cleanup := (if r_dirty r then Some (next_handle s) else None)\<rparr>"
  by (simp add: debounce_effect_def setTimeout_def)

lemmas effect_upds =
  unmount_cleanup_upd debounce_cleanup_upd sync_effect_upd debounce_effect_upd
  sync_valueRef_def sync_dirtyRef_def sync_workspaceIdRef_def reset_effect_def
  setDirty_def store_deps_def

lemma run_if_frame: "(\<And>s. g (f s) = g s) \<Longrightarrow> g (run_if b f s) = g s"
  by (simp add: run_if_def)

lemma run_if_app: "g (run_if b f s) = (if b then g (f s) else g s)"
  by (simp add: run_if_def)

lemmas frames =
  run_if_frame[of env] run_if_frame[of value_st] run_if_frame[of dirty]
  run_if_frame[of valueRef] run_if_frame[of dirtyRef] run_if_frame[of workspaceIdRef]
  run_if_frame[of timer_cleanup] run_if_frame[of timers] run_if_frame[of next_handle]
  run_if_frame[of saves] run_if_frame[of arms] run_if_frame[of cancels]

lemma commit_env: "env (commit f s) = env s"
  by (simp add: commit_def Let_def frames effect_upds)

lemma commit_deps:
  "dep_value (commit f s) = value_st s"
  "dep_dirty (commit f s) = dirty s"
  "dep_workspaceId (commit f s) = workspaceId (env s)"
  "dep_content (commit f s) = content (env s)"
  "dep_saveMutation (commit f s) = saveMutation (env s)"
  by (simp_all add: commit_def Let_def store_deps_def snapshot_of_def)

lemma commit_dirty: "dirty (commit f s) = (if ch_workspaceId f s then False else dirty s)"
  by (simp add: commit_def Let_def frames effect_upds run_if_app[of dirty _ "reset_effect _"])

lemma commit_value:
  "value_st (commit f s) =
     (if ch_sync f s \<and> \<not> dirty s
      then (case content (env s) of None \<Rightarrow> value_st s | Some c \<Rightarrow> c)
      else value_st s)"
  by (simp add: commit_def Let_def frames effect_upds snapshot_of_def
      run_if_app[of value_st _ "sync_effect _"] split: option.split)

lemma commit_valueRef:
  "valueRef (commit f s) = (if ch_value f s then value_st s else valueRef s)"
  by (simp add: commit_def Let_def frames effect_upds snapshot_of_def
      run_if_app[of valueRef _ "sync_valueRef _"])

lemma commit_dirtyRef:
  "dirtyRef (commit f s) = (if ch_dirty f s then dirty s else dirtyRef s)"
  by (simp add: commit_def Let_def frames effect_upds snapshot_of_def
      run_if_app[of dirtyRef _ "sync_dirtyRef _"])

lemma commit_workspaceIdRef:
  "workspaceIdRef (commit f s) =
     (if ch_workspaceId f s then workspaceId (env s) else workspaceIdRef s)"
  by (simp add: commit_def Let_def frames effect_upds snapshot_of_def
      run_if_app[of workspaceIdRef _ "sync_workspaceIdRef _"])

lemma commit_saves:
  "saves (commit f s) =
     (if ch_saveMutation f s \<and> \<not> f \<and> dirtyRef s
      then saves s @ [(workspaceIdRef s, valueRef s)] else saves s)"
  by (cases f) (simp_all add: commit_def Let_def frames effect_upds ch_saveMutation_def
      run_if_app[of saves _ unmount_cleanup])

lemma commit_cancels:
  "cancels (commit f s) =
     (if ch_debounce f s \<and> \<not> f \<and> timer_cleanup s \<noteq> None
      then Suc (cancels s) else cancels s)"
  by (cases f) (simp_all add: commit_def Let_def frames effect_upds ch_debounce_def
      ch_value_def ch_dirty_def ch_workspaceId_def ch_saveMutation_def
      run_if_app[of cancels _ debounce_cleanup] split: option.split)

lemma commit_arms:
  "arms (commit f s) = (if ch_debounce f s \<and> dirty s then Suc (arms s) else arms s)"
  by (simp add: commit_def Let_def frames effect_upds snapshot_of_def
      run_if_app[of arms _ "debounce_effect _"])

lemma commit_next_handle:
  "next_handle (commit f s) =
     (if ch_debounce f s \<and> dirty s then Suc (next_handle s) else next_handle s)"
  by (simp add: commit_def Let_def frames effect_upds snapshot_of_def
      run_if_app[of next_handle _ "debounce_effect _"])

lemma commit_timer_cleanup:
  "timer_cleanup (commit f s) =
     (if ch_debounce f s then (if dirty s then Some (next_handle s) else None)
      else timer_cleanup s)"
  by (simp add: commit_def Let_def frames effect_upds snapshot_of_def
      run_if_app[of timer_cleanup _ "debounce_effect _"])

definition cleared :: "bool \<Rightarrow> fiber \<Rightarrow> timer list" where
  "cleared f s =
     (if f then timers s
      else case timer_cleanup s of None \<Rightarrow> timers s
           | Some h \<Rightarrow> filter (\<lambda>t. handle t \<noteq> h) (timers s))"

lemma commit_timers:
  "timers (commit f s) =
     (if ch_debounce f s
      then (if dirty s
            then cleared f s @ [\<lparr>handle = next_handle s, remaining = quiet_period,
                                   t_wsId = workspaceId (env s), t_content = value_st s\<rparr>]
            else cleared f s)
      else timers s)"
  by (cases f) (simp_all add: commit_def Let_def frames effect_upds snapshot_of_def cleared_def
      ch_debounce_def ch_value_def ch_dirty_def ch_workspaceId_def ch_saveMutation_def
      run_if_app[of timers _ "debounce_effect _"] run_if_app[of timers _ debounce_cleanup]
      split: option.split)

lemmas commit_fields =
  commit_env commit_deps commit_dirty commit_value commit_valueRef commit_dirtyRef
  commit_workspaceIdRef commit_saves commit_cancels commit_arms commit_next_handle
  commit_timer_cleanup commit_timers

function settle :: "fiber \<Rightarrow> fiber" where
  "settle s =
     (if value_st s = dep_value s \<and> dirty s = dep_dirty s then s
      else settle (commit False s))"
  by pat_completeness auto
termination
proof (relation "measure pending_passes")
  show "wf (measure pending_passes)" by simp
next
  fix s :: fiber
  assume "\<not> (value_st s = dep_value s \<and> dirty s = dep_dirty s)"
  then have "pending_passes (commit False s) < pending_passes s"
    by (simp add: pending_passes_def ch_workspaceId_def ch_content_def ch_saveMutation_def
        ch_dirty_def ch_value_def ch_sync_def commit_env commit_deps commit_dirty commit_value)
  then show "(commit False s, s) \<in> measure pending_passes" by simp
qed


declare settle.simps [simp del]

text \<open>
  Mounting: \<^verbatim>\<open>useState("")\<close>, \<^verbatim>\<open>useState(false)\<close>, the refs initialised from the
  first render, then the first commit, where every effect runs and no cleanup exists.
\<close>

definition init :: "hooks \<Rightarrow> fiber" where
  "init e =
     \<lparr>env = e, value_st = [], dirty = False,
      valueRef = [], dirtyRef = False, workspaceIdRef = workspaceId e,
      dep_value = [], dep_dirty = False, dep_workspaceId = workspaceId e,
      dep_content = content e, dep_saveMutation = saveMutation e,
      timer_cleanup = None, timers = [], next_handle = 0, saves = [], arms = 0, cancels = 0\<rparr>"

definition mount :: "hooks \<Rightarrow> fiber" where
  "mount e = settle (commit True (init e))"

text \<open>A render caused from outside: new props or new hook results.\<close>

definition rerender :: "hooks \<Rightarrow> fiber \<Rightarrow> fiber" where
  "rerender e s = settle (commit False (s\<lparr>env := e\<rparr>))"

text \<open>
  Lines 59 to 62. Both updates are batched; React renders only if a cell changed.
\<close>

definition onChange :: "string \<Rightarrow> fiber \<Rightarrow> fiber" where
  "onChange val s = settle (setDirty True (setValue val s))"

text \<open>
  The browser's clock. A timer that is due leaves the queue and its callback runs; the
  state update of the callback is followed by the renders it causes. One millisecond
  passes in \<open>tick\<close>; timers armed while the due ones run wait for their own time.
\<close>

definition fire :: "timer \<Rightarrow> fiber \<Rightarrow> fiber" where
  "fire t s =
     settle (timer_callback t (s\<lparr>timers := filter (\<lambda>u. handle u \<noteq> handle t) (timers s)\<rparr>))"

primrec run_due :: "timer list \<Rightarrow> fiber \<Rightarrow> fiber" where
  "run_due [] s = s"
| "run_due (t # ts) s =
     run_due ts (if handle t \<in> handle ` set (timers s) then fire t s else s)"

definition tick :: "fiber \<Rightarrow> fiber" where
  "tick s =
     (let q = map (\<lambda>t. t\<lparr>remaining := remaining t - 1\<rparr>) (timers s)
      in run_due (filter (\<lambda>t. remaining t = 0) q) (s\<lparr>timers := q\<rparr>))"

primrec advance :: "nat \<Rightarrow> fiber \<Rightarrow> fiber" where
  "advance 0 s = s"
| "advance (Suc n) s = advance n (tick s)"

text \<open>Unmounting runs every cleanup, in the order of declaration.\<close>

definition unmount :: "fiber \<Rightarrow> fiber" where
  "unmount s = debounce_cleanup (unmount_cleanup s)"

subsection \<open>Events\<close>

datatype event = Edit string | Render hooks | Wait nat

primrec step :: "event \<Rightarrow> fiber \<Rightarrow> fiber" where
  "step (Edit val) s = onChange val s"
| "step (Render e) s = rerender e s"
| "step (Wait ms) s = advance ms s"

primrec run :: "event list \<Rightarrow> fiber \<Rightarrow> fiber" where
  "run [] s = s"
| "run (ev # evs) s = run evs (step ev s)"

text \<open>A burst of edits: each one followed by a pause before the next.\<close>

primrec burst :: "(string \<times> nat) list \<Rightarrow> event list" where
  "burst [] = []"
| "burst (p # ps) = Edit (fst p) # Wait (snd p) # burst ps"

text \<open>A switch of document: the same hook results with another identifier and content.\<close>

definition switch :: "string \<Rightarrow> string option \<Rightarrow> fiber \<Rightarrow> fiber" where
  "switch newId c s = rerender ((env s)\<lparr>workspaceId := newId, content := c\<rparr>) s"

text \<open>A load that resolves: the same hook results with the loaded content.\<close>

definition loaded :: "string \<Rightarrow> fiber \<Rightarrow> fiber" where
  "loaded c s = rerender ((env s)\<lparr>content := Some c\<rparr>) s"

subsection \<open>The states between events\<close>

text \<open>
  What holds whenever the component is at rest: the committed dependencies and the refs
  agree with the cells, a dirty instance has exactly the one timer its cleanup holds,
  carrying the current identifier and buffer, a clean one has none, a clean buffer shows
  the loaded content, and every arm but the live one has been cancelled.
\<close>

definition at_rest :: "fiber \<Rightarrow> bool" where
  "at_rest s =
     (dep_value s = value_st s \<and> dep_dirty s = dirty s
      \<and> dep_workspaceId s = workspaceId (env s) \<and> dep_content s = content (env s)
      \<and> dep_saveMutation s = saveMutation (env s)
      \<and> valueRef s = value_st s \<and> dirtyRef s = dirty s
      \<and> workspaceIdRef s = workspaceId (env s)
      \<and> (if dirty s
          then (case timers s of
                  [t] \<Rightarrow> timer_cleanup s = Some (handle t) \<and> 0 < remaining t
                         \<and> remaining t \<le> quiet_period
                         \<and> t_wsId t = workspaceId (env s) \<and> t_content t = value_st s
                | _ \<Rightarrow> False)
          else timers s = [] \<and> timer_cleanup s = None
               \<and> (case content (env s) of None \<Rightarrow> True | Some c \<Rightarrow> value_st s = c))
      \<and> arms s = cancels s + (if dirty s then 1 else 0))"


subsection \<open>Invariants of the render loop\<close>

text \<open>
  \<open>coherent\<close> is what every commit keeps, also in the middle of the renders that follow
  a state update: refs and timer agree with the last committed render. A fired timer
  has left the queue while its cleanup still holds the handle; then the cell is clean.
\<close>

definition coherent :: "fiber \<Rightarrow> bool" where
  "coherent s =
     (valueRef s = dep_value s \<and> dirtyRef s = dep_dirty s
      \<and> workspaceIdRef s = dep_workspaceId s
      \<and> (case timer_cleanup s of
            None \<Rightarrow> \<not> dep_dirty s \<and> timers s = []
          | Some h \<Rightarrow> dep_dirty s \<and>
              (case timers s of
                 [] \<Rightarrow> \<not> dirty s
               | [t] \<Rightarrow> handle t = h \<and> 0 < remaining t \<and> remaining t \<le> quiet_period
                        \<and> t_wsId t = dep_workspaceId s \<and> t_content t = dep_value s
               | _ \<Rightarrow> False))
      \<and> arms s = cancels s + (if dep_dirty s then 1 else 0)
      \<and> (\<not> dirty s \<and> \<not> dep_dirty s \<longrightarrow>
           (case dep_content s of None \<Rightarrow> True | Some c \<Rightarrow> value_st s = c)))"

definition env_synced :: "fiber \<Rightarrow> bool" where
  "env_synced s = (dep_workspaceId s = workspaceId (env s) \<and> dep_content s = content (env s)
      \<and> dep_saveMutation s = saveMutation (env s))"

definition settled :: "fiber \<Rightarrow> bool" where
  "settled s = (value_st s = dep_value s \<and> dirty s = dep_dirty s)"

lemmas ch_defs = ch_value_def ch_dirty_def ch_workspaceId_def ch_content_def
  ch_saveMutation_def ch_sync_def ch_debounce_def

lemma at_rest_iff: "at_rest s \<longleftrightarrow> coherent s \<and> env_synced s \<and> settled s"
  by (auto simp: at_rest_def coherent_def env_synced_def settled_def split: option.splits list.splits)

lemma coherent_commit: "coherent s \<Longrightarrow> coherent (commit False s)"
  unfolding coherent_def
  by (auto simp: commit_fields ch_defs cleared_def quiet_period_def split: option.splits list.splits if_splits)

lemma env_synced_commit: "env_synced (commit f s)"
  by (simp add: env_synced_def commit_fields)


lemma settle_settled: "settled s \<Longrightarrow> settle s = s"
  using settle.simps[of s] by (simp add: settled_def)

lemma settle_unsettled: "\<not> settled s \<Longrightarrow> settle s = settle (commit False s)"
  using settle.simps[of s] by (auto simp: settled_def)

lemma at_rest_settle: "coherent s \<Longrightarrow> env_synced s \<Longrightarrow> at_rest (settle s)"
proof (induction s rule: settle.induct)
  case (1 s)
  show ?case
  proof (cases "settled s")
    case True
    with "1.prems" show ?thesis by (simp add: settle_settled at_rest_iff)
  next
    case False
    then have "\<not> (value_st s = dep_value s \<and> dirty s = dep_dirty s)"
      by (simp add: settled_def)
    then have "at_rest (settle (commit False s))"
      using "1.prems" by (intro "1.IH") (simp_all add: coherent_commit env_synced_commit)
    with False show ?thesis by (simp add: settle_unsettled)
  qed
qed

lemma settle_synced:
  assumes "env_synced s"
  shows "settle s =
     (if settled s then s
      else if value_st (commit False s) = value_st s then commit False s
      else commit False (commit False s))"
proof (cases "settled s")
  case True
  then show ?thesis by (simp add: settle_settled)
next
  case False
  let ?s1 = "commit False s"
  have d1: "dirty ?s1 = dep_dirty ?s1"
    using assms by (simp add: commit_fields ch_defs env_synced_def)
  show ?thesis
  proof (cases "value_st ?s1 = value_st s")
    case True
    then have "settled ?s1" using d1 by (simp add: settled_def commit_fields)
    with False True show ?thesis by (simp add: settle_unsettled settle_settled)
  next
    case v: False
    let ?s2 = "commit False ?s1"
    have "\<not> settled ?s1" using v by (simp add: settled_def commit_deps)
    moreover have "settled ?s2"
      using d1 by (simp add: settled_def commit_fields ch_defs)
    ultimately show ?thesis using False v by (simp add: settle_unsettled settle_settled)
  qed
qed



subsection \<open>Every event leaves the component at rest\<close>

lemma coherent_env_upd: "coherent (s\<lparr>env := e\<rparr>) = coherent s"
  by (simp add: coherent_def cong: option.case_cong list.case_cong)

lemma at_rest_rerender: "at_rest s \<Longrightarrow> at_rest (rerender e s)"
  unfolding rerender_def
  by (intro at_rest_settle coherent_commit env_synced_commit) (simp add: coherent_env_upd at_rest_iff)

lemma at_rest_onChange: "at_rest s \<Longrightarrow> at_rest (onChange val s)"
  unfolding onChange_def
  by (intro at_rest_settle)
     (auto simp: at_rest_iff coherent_def env_synced_def settled_def setDirty_def setValue_def
        split: option.splits list.splits)

lemma at_rest_fire:
  assumes "at_rest s" "timers s = [t]"
  shows "at_rest (settle (timer_callback u (s\<lparr>timers := []\<rparr>)))"
  using assms
  by (intro at_rest_settle)
     (auto simp: at_rest_iff coherent_def env_synced_def settled_def timer_callback_def
        setDirty_def mutate_def split: option.splits list.splits)

lemma at_rest_mount: "at_rest (mount e)"
  unfolding mount_def
  by (intro at_rest_settle env_synced_commit)
     (simp add: coherent_def commit_fields ch_defs init_def cleared_def quiet_period_def
        split: option.splits)


lemma tick_idle: "timers s = [] \<Longrightarrow> tick s = s"
  by (simp add: tick_def)

lemma advance_idle: "timers s = [] \<Longrightarrow> advance d s = s"
  by (induction d) (simp_all add: tick_idle)

lemma tick_pending:
  "timers s = [t] \<Longrightarrow> 1 < remaining t \<Longrightarrow> tick s = s\<lparr>timers := [t\<lparr>remaining := remaining t - 1\<rparr>]\<rparr>"
  by (simp add: tick_def)

lemma tick_due:
  "timers s = [t] \<Longrightarrow> remaining t = 1 \<Longrightarrow>
     tick s = settle (timer_callback t (s\<lparr>timers := []\<rparr>))"
  by (simp add: tick_def fire_def timer_callback_def)

lemma advance_pending:
  "timers s = [t] \<Longrightarrow> d < remaining t \<Longrightarrow>
     advance d s = s\<lparr>timers := [t\<lparr>remaining := remaining t - d\<rparr>]\<rparr>"
proof (induction d arbitrary: s t)
  case 0
  then show ?case by simp
next
  case (Suc d)
  then have "tick s = s\<lparr>timers := [t\<lparr>remaining := remaining t - 1\<rparr>]\<rparr>"
    by (simp add: tick_pending)
  moreover have "advance d (s\<lparr>timers := [t\<lparr>remaining := remaining t - 1\<rparr>]\<rparr>) =
      s\<lparr>timers := [t\<lparr>remaining := remaining t - 1 - d\<rparr>]\<rparr>"
    using Suc.prems Suc.IH[of "s\<lparr>timers := [t\<lparr>remaining := remaining t - 1\<rparr>]\<rparr>" "t\<lparr>remaining := remaining t - 1\<rparr>"]
    by simp
  ultimately show ?case by simp
qed

lemma at_rest_tick: "at_rest s \<Longrightarrow> at_rest (tick s)"
proof (cases "timers s")
  case Nil
  assume "at_rest s"
  with Nil show ?thesis by (simp add: tick_idle)
next
  case (Cons t ts)
  assume r: "at_rest s"
  with Cons have ts: "timers s = [t]" and pos: "0 < remaining t"
    by (auto simp: at_rest_def split: if_splits list.splits)
  show ?thesis
  proof (cases "remaining t = 1")
    case True
    with ts r show ?thesis by (simp add: tick_due at_rest_fire)
  next
    case False
    with pos have "1 < remaining t" by simp
    with ts r show ?thesis
      by (auto simp: tick_pending at_rest_def split: if_splits)
  qed
qed

lemma at_rest_advance: "at_rest s \<Longrightarrow> at_rest (advance d s)"
  by (induction d arbitrary: s) (simp_all add: at_rest_tick)

lemma at_rest_step: "at_rest s \<Longrightarrow> at_rest (step ev s)"
  by (cases ev) (simp_all add: at_rest_onChange at_rest_rerender at_rest_advance)

lemma at_rest_run: "at_rest s \<Longrightarrow> at_rest (run evs s)"
  by (induction evs arbitrary: s) (simp_all add: at_rest_step)

lemma at_rest_reachable: "at_rest (run evs (mount e))"
  by (simp add: at_rest_run at_rest_mount)



subsection \<open>What each event does to a component at rest\<close>

text \<open>An edit.\<close>

lemma onChange_noop: "at_rest s \<Longrightarrow> value_st s = val \<Longrightarrow> dirty s \<Longrightarrow> onChange val s = s"
  by (simp add: onChange_def setDirty_def setValue_def settle_settled settled_def at_rest_def)

lemma onChange_commit:
  assumes "at_rest s" "\<not> (value_st s = val \<and> dirty s)"
  shows "onChange val s = commit False (s\<lparr>value_st := val, dirty := True\<rparr>)"
proof -
  let ?s' = "s\<lparr>value_st := val, dirty := True\<rparr>"
  have es: "env_synced ?s'" using assms(1) by (simp add: at_rest_iff env_synced_def)
  have ns: "\<not> settled ?s'" using assms by (auto simp: settled_def at_rest_def)
  have "value_st (commit False ?s') = value_st ?s'"
    by (simp add: commit_fields)
  with es ns show ?thesis
    by (simp add: onChange_def setDirty_def setValue_def settle_synced)
qed

lemma onChange_cells: "at_rest s \<Longrightarrow> value_st (onChange val s) = val \<and> dirty (onChange val s)"
  by (cases "value_st s = val \<and> dirty s")
     (auto simp: onChange_noop onChange_commit commit_fields ch_defs at_rest_def)

lemma onChange_frame:
  "at_rest s \<Longrightarrow> saves (onChange val s) = saves s \<and> env (onChange val s) = env s"
  by (cases "value_st s = val \<and> dirty s")
     (auto simp: onChange_noop onChange_commit commit_fields ch_defs at_rest_def)

lemma onChange_timers:
  assumes "at_rest s" "\<not> (value_st s = val \<and> dirty s)"
  shows "timers (onChange val s) =
       [\<lparr>handle = next_handle s, remaining = quiet_period,
         t_wsId = workspaceId (env s), t_content = val\<rparr>]"
  using assms
  by (auto simp: onChange_commit commit_fields ch_defs cleared_def at_rest_def
      split: option.splits list.splits if_splits)

lemma onChange_counts:
  assumes "at_rest s" "\<not> (value_st s = val \<and> dirty s)"
  shows "arms (onChange val s) = Suc (arms s)"
    and "cancels (onChange val s) = (if dirty s then Suc (cancels s) else cancels s)"
  using assms
  by (auto simp: onChange_commit commit_fields ch_defs cleared_def at_rest_def
      split: option.splits list.splits if_splits)


text \<open>The renders after a state update, when the hook results are already committed.\<close>

lemma settle_fields:
  assumes "env_synced s"
  shows "env (settle s) = env s"
    and "dirty (settle s) = dirty s"
    and "saves (settle s) = saves s"
    and "value_st (settle s) =
          (if \<not> dirty s \<and> dep_dirty s
           then (case content (env s) of None \<Rightarrow> value_st s | Some c \<Rightarrow> c)
           else value_st s)"
  using assms
  by (auto simp: settle_synced commit_fields ch_defs env_synced_def settled_def
      split: option.splits)

text \<open>A render with new props or hook results.\<close>

lemma rerender_fields:
  assumes "at_rest s"
  shows "env (rerender e s) = e"
    and "dirty (rerender e s) = (dirty s \<and> workspaceId e = workspaceId (env s))"
    and "saves (rerender e s) =
          (if saveMutation e \<noteq> saveMutation (env s) \<and> dirty s
           then saves s @ [(workspaceId (env s), value_st s)] else saves s)"
    and "value_st (rerender e s) =
          (if dirty s \<and> workspaceId e = workspaceId (env s) then value_st s
           else case content e of None \<Rightarrow> value_st s | Some c \<Rightarrow> c)"
  using assms
  by (auto simp: rerender_def settle_fields env_synced_commit commit_fields ch_defs at_rest_def
      split: option.splits)

text \<open>The timer fires: \<open>fired\<close> is the state after the callback and its renders.\<close>

lemma timer_callback_remaining: "timer_callback (t\<lparr>remaining := r\<rparr>) s = timer_callback t s"
  by (simp add: timer_callback_def)

lemma advance_add: "advance (a + b) s = advance b (advance a s)"
  by (induction a arbitrary: s) simp_all

definition fired :: "fiber \<Rightarrow> fiber" where
  "fired s = settle (timer_callback (hd (timers s)) (s\<lparr>timers := []\<rparr>))"

lemma fired_fields:
  assumes "at_rest s" "dirty s"
  shows "at_rest (fired s)"
    and "\<not> dirty (fired s)"
    and "timers (fired s) = []"
    and "env (fired s) = env s"
    and "saves (fired s) = saves s @ [(workspaceId (env s), value_st s)]"
    and "value_st (fired s) = (case content (env s) of None \<Rightarrow> value_st s | Some c \<Rightarrow> c)"
proof -
  from assms obtain t where t: "timers s = [t]" "t_wsId t = workspaceId (env s)"
      "t_content t = value_st s"
    by (auto simp: at_rest_def split: list.splits)
  let ?x = "timer_callback t (s\<lparr>timers := []\<rparr>)"
  have f: "fired s = settle ?x" using t by (simp add: fired_def)
  have es: "env_synced ?x"
    using assms by (simp add: at_rest_iff env_synced_def timer_callback_def setDirty_def mutate_def)
  show r: "at_rest (fired s)" using assms t f by (simp add: at_rest_fire)
  note sf = settle_fields[OF es]
  show d: "\<not> dirty (fired s)"
    unfolding f sf by (simp add: timer_callback_def setDirty_def mutate_def)
  from r d show "timers (fired s) = []" by (simp add: at_rest_def)
  show "env (fired s) = env s"
    unfolding f sf by (simp add: timer_callback_def setDirty_def mutate_def)
  show "saves (fired s) = saves s @ [(workspaceId (env s), value_st s)]"
    unfolding f sf using t by (simp add: timer_callback_def setDirty_def mutate_def)
  show "value_st (fired s) = (case content (env s) of None \<Rightarrow> value_st s | Some c \<Rightarrow> c)"
    unfolding f sf using assms
    by (simp add: timer_callback_def setDirty_def mutate_def at_rest_def split: option.splits)
qed

lemma advance_fire:
  assumes "at_rest s" "timers s = [t]" "remaining t \<le> d"
  shows "advance d s = fired s"
proof -
  from assms have dirty: "dirty s" and pos: "0 < remaining t"
    by (auto simp: at_rest_def split: if_splits)
  define a where "a = remaining t - 1"
  define b where "b = d - remaining t"
  have d: "d = a + (Suc 0 + b)" using assms(3) pos by (simp add: a_def b_def)
  let ?t1 = "t\<lparr>remaining := remaining t - a\<rparr>"
  have "advance a s = s\<lparr>timers := [?t1]\<rparr>"
    using assms(2) pos by (simp add: advance_pending a_def)
  moreover have "tick (s\<lparr>timers := [?t1]\<rparr>) = fired s"
    using pos assms(2)
    by (simp add: tick_due a_def fired_def timer_callback_remaining)
  moreover have "advance b (fired s) = fired s"
    using fired_fields(3)[OF assms(1) dirty] by (simp add: advance_idle)
  ultimately show ?thesis
    unfolding d advance_add by simp
qed



text \<open>Mounting.\<close>

lemma mount_fields:
  "\<not> dirty (mount e)" "env (mount e) = e" "saves (mount e) = []"
proof -
  let ?x = "commit True (init e)"
  have es: "env_synced ?x" by (rule env_synced_commit)
  note sf = settle_fields[OF es]
  show "\<not> dirty (mount e)" unfolding mount_def sf by (simp add: commit_fields ch_defs)
  show "env (mount e) = e" unfolding mount_def sf by (simp add: commit_fields init_def)
  show "saves (mount e) = []" unfolding mount_def sf by (simp add: commit_fields init_def)
qed

text \<open>Time passing: the pending timer either fires or has less time left.\<close>

lemma advance_cases:
  assumes "at_rest s"
  shows "advance d s =
     (if dirty s
      then (if remaining (hd (timers s)) \<le> d then fired s
            else s\<lparr>timers := [(hd (timers s))\<lparr>remaining := remaining (hd (timers s)) - d\<rparr>]\<rparr>)
      else s)"
proof (cases "dirty s")
  case False
  with assms have "timers s = []" by (simp add: at_rest_def)
  with False show ?thesis by (simp add: advance_idle)
next
  case True
  with assms obtain t where t: "timers s = [t]"
    by (auto simp: at_rest_def split: list.splits)
  with True assms show ?thesis
    by (simp add: advance_fire advance_pending)
qed

lemma advance_fields:
  assumes "at_rest s"
  shows "env (advance d s) = env s"
    and "dirty (advance d s) \<Longrightarrow> dirty s \<and> value_st (advance d s) = value_st s \<and> saves (advance d s) = saves s"
    and "\<not> dirty s \<Longrightarrow> advance d s = s"
  using assms
  by (auto simp: advance_cases fired_fields split: if_splits)


text \<open>Events other than edits.\<close>

primrec is_edit :: "event \<Rightarrow> bool" where
  "is_edit (Edit val) = True"
| "is_edit (Render e) = False"
| "is_edit (Wait ms) = False"

primrec last_edit :: "event list \<Rightarrow> string option" where
  "last_edit [] = None"
| "last_edit (ev # evs) =
     (case last_edit evs of
        Some v \<Rightarrow> Some v
      | None \<Rightarrow> (case ev of Edit val \<Rightarrow> Some val | _ \<Rightarrow> None))"

lemma step_keeps_dirty:
  assumes "at_rest s" "\<not> is_edit ev" "dirty (step ev s)"
  shows "dirty s \<and> value_st (step ev s) = value_st s"
proof (cases ev)
  case (Edit val)
  with assms show ?thesis by simp
next
  case (Render e)
  with assms show ?thesis by (simp add: rerender_fields)
next
  case (Wait ms)
  with assms advance_fields(2)[OF assms(1), of ms] show ?thesis by simp
qed

lemma step_stays_clean:
  assumes "at_rest s" "\<not> is_edit ev" "\<not> dirty s"
  shows "\<not> dirty (step ev s) \<and> saves (step ev s) = saves s"
proof (cases ev)
  case (Edit val)
  with assms show ?thesis by simp
next
  case (Render e)
  with assms show ?thesis by (simp add: rerender_fields)
next
  case (Wait ms)
  with assms advance_fields(3)[OF assms(1,3), of ms] show ?thesis by simp
qed

lemma run_stays_clean:
  "at_rest s \<Longrightarrow> \<not> dirty s \<Longrightarrow> list_all (\<lambda>ev. \<not> is_edit ev) evs \<Longrightarrow>
     \<not> dirty (run evs s) \<and> saves (run evs s) = saves s"
proof (induction evs arbitrary: s)
  case Nil
  then show ?case by simp
next
  case (Cons ev evs)
  then have "\<not> dirty (step ev s) \<and> saves (step ev s) = saves s" "at_rest (step ev s)"
    by (simp_all add: step_stays_clean at_rest_step)
  with Cons.IH[of "step ev s"] Cons.prems show ?case by simp
qed

lemma dirty_run_last_edit:
  "at_rest s \<Longrightarrow> dirty (run evs s) \<Longrightarrow>
     (case last_edit evs of
        Some v \<Rightarrow> value_st (run evs s) = v
      | None \<Rightarrow> dirty s \<and> value_st (run evs s) = value_st s)"
proof (induction evs arbitrary: s)
  case Nil
  then show ?case by simp
next
  case (Cons ev evs)
  have r: "at_rest (step ev s)" using Cons.prems by (simp add: at_rest_step)
  have d: "dirty (run evs (step ev s))" using Cons.prems by simp
  note ih = Cons.IH[OF r d]
  show ?case
  proof (cases "last_edit evs")
    case (Some v)
    with ih show ?thesis by simp
  next
    case None
    with ih have a: "dirty (step ev s)" "value_st (run evs (step ev s)) = value_st (step ev s)"
      by simp_all
    show ?thesis
    proof (cases "is_edit ev")
      case True
      then obtain val where "ev = Edit val" by (cases ev) simp_all
      with None a Cons.prems show ?thesis by (simp add: onChange_cells)
    next
      case False
      with step_keeps_dirty[OF Cons.prems(1) False a(1)] None a show ?thesis
        by (cases ev) simp_all
    qed
  qed
qed

lemma dirty_reachable_last_edit:
  assumes "dirty (run evs (mount e))"
  shows "last_edit evs = Some (value_st (run evs (mount e)))"
  using dirty_run_last_edit[OF at_rest_mount assms] mount_fields(1)[of e]
  by (cases "last_edit evs") simp_all



subsection \<open>Document switch, debounce and bursts\<close>

lemma run_append: "run (xs @ ys) s = run ys (run xs s)"
  by (induction xs arbitrary: s) simp_all

lemma switch_dirty:
  assumes "at_rest s" "dirty s" "newId \<noteq> workspaceId (env s)"
  shows "at_rest (switch newId c s)" and "\<not> dirty (switch newId c s)"
    and "saves (switch newId c s) = saves s"
    and "timers (switch newId c s) = []"
    and "value_st (switch newId c s) = (case c of None \<Rightarrow> value_st s | Some x \<Rightarrow> x)"
proof -
  show r: "at_rest (switch newId c s)"
    unfolding switch_def using assms(1) by (rule at_rest_rerender)
  show d: "\<not> dirty (switch newId c s)"
    using assms by (simp add: switch_def rerender_fields)
  from r d show "timers (switch newId c s) = []" by (simp add: at_rest_def)
  show "saves (switch newId c s) = saves s"
    using assms by (simp add: switch_def rerender_fields)
  show "value_st (switch newId c s) = (case c of None \<Rightarrow> value_st s | Some x \<Rightarrow> x)"
    using assms by (simp add: switch_def rerender_fields)
qed

lemma debounce_fires:
  assumes "at_rest s" "dirty s"
  shows "advance quiet_period s = fired s"
proof -
  from assms obtain t where "timers s = [t]" "remaining t \<le> quiet_period"
    by (auto simp: at_rest_def split: list.splits)
  with assms(1) show ?thesis by (simp add: advance_fire)
qed

lemma edit_then_pause:
  assumes "at_rest s" "\<not> (value_st s = c \<and> dirty s)" "g < quiet_period"
  shows "at_rest (advance g (onChange c s))"
    and "dirty (advance g (onChange c s))"
    and "value_st (advance g (onChange c s)) = c"
    and "saves (advance g (onChange c s)) = saves s"
    and "env (advance g (onChange c s)) = env s"
proof -
  let ?s1 = "onChange c s"
  have r1: "at_rest ?s1" using assms(1) by (rule at_rest_onChange)
  have t1: "timers ?s1 = [\<lparr>handle = next_handle s, remaining = quiet_period,
         t_wsId = workspaceId (env s), t_content = c\<rparr>]"
    using assms(1,2) by (rule onChange_timers)
  have a: "advance g ?s1 = ?s1\<lparr>timers := [\<lparr>handle = next_handle s, remaining = quiet_period - g,
         t_wsId = workspaceId (env s), t_content = c\<rparr>]\<rparr>"
    using assms(3) by (simp add: advance_pending[OF t1])
  show "at_rest (advance g ?s1)" using r1 by (rule at_rest_advance)
  show "dirty (advance g ?s1)" "value_st (advance g ?s1) = c"
    unfolding a using onChange_cells[OF assms(1), of c] by simp_all
  show "saves (advance g ?s1) = saves s" "env (advance g ?s1) = env s"
    unfolding a using onChange_frame[OF assms(1), of c] by simp_all
qed

lemma burst_coalesces:
  assumes "at_rest s"
    and "dirty s \<Longrightarrow> value_st s \<noteq> hd (map fst ps @ [v])"
    and "distinct_adj (map fst ps @ [v])"
    and "\<forall>p\<in>set ps. snd p < quiet_period"
  shows "at_rest (run (burst ps @ [Edit v]) s)
       \<and> saves (run (burst ps @ [Edit v]) s) = saves s
       \<and> env (run (burst ps @ [Edit v]) s) = env s
       \<and> dirty (run (burst ps @ [Edit v]) s)
       \<and> value_st (run (burst ps @ [Edit v]) s) = v
       \<and> map remaining (timers (run (burst ps @ [Edit v]) s)) = [quiet_period]
       \<and> (\<forall>n. saves (run (take n (burst ps @ [Edit v])) s) = saves s)"
  using assms
proof (induction ps arbitrary: s)
  case Nil
  then have ch: "\<not> (value_st s = v \<and> dirty s)" by auto
  have "\<And>n. take n [Edit v] = (if n = 0 then [] else [Edit v])"
    by (simp add: take_Cons')
  then have "\<forall>n. saves (run (take n [Edit v]) s) = saves s"
    using onChange_frame[OF Nil(1), of v] by simp
  then show ?case
    using onChange_cells[OF Nil(1), of v] onChange_frame[OF Nil(1), of v]
      onChange_timers[OF Nil(1) ch] at_rest_onChange[OF Nil(1), of v]
    by simp
next
  case (Cons p ps)
  obtain c g where p: "p = (c, g)" by (cases p)
  let ?s2 = "advance g (onChange c s)"
  have ch: "\<not> (value_st s = c \<and> dirty s)" using Cons.prems(2) p by auto
  have g: "g < quiet_period" using Cons.prems(4) p by simp
  note e = edit_then_pause[OF Cons.prems(1) ch g]
  have nx: "value_st ?s2 \<noteq> hd (map fst ps @ [v])"
    using Cons.prems(3) p e(3) by (cases ps) (simp_all add: distinct_adj_Cons)
  have da: "distinct_adj (map fst ps @ [v])"
    using Cons.prems(3) by (simp add: distinct_adj_Cons)
  have gs: "\<forall>p\<in>set ps. snd p < quiet_period" using Cons.prems(4) by simp
  note ih = Cons.IH[OF e(1) nx da gs]
  have pre: "saves (run (take n (burst (p # ps) @ [Edit v])) s) = saves s" for n
  proof (cases n)
    case 0
    then show ?thesis by simp
  next
    case (Suc m)
    show ?thesis
    proof (cases m)
      case 0
      with Suc p show ?thesis using onChange_frame[OF Cons.prems(1), of c] by simp
    next
      case (Suc k)
      with \<open>n = Suc m\<close> p ih e(4) show ?thesis by simp
    qed
  qed
  from ih e(4,5) p pre show ?case by simp
qed

lemma at_rest_timers: "at_rest s \<Longrightarrow> length (timers s) = (if dirty s then 1 else 0)"
  by (auto simp: at_rest_def split: list.splits)

lemma at_rest_counts: "at_rest s \<Longrightarrow> arms s = cancels s + (if dirty s then 1 else 0)"
  by (simp add: at_rest_def)

lemma unmount_dirty:
  assumes "at_rest s" "dirty s"
  shows "saves (unmount s) = saves s @ [(workspaceId (env s), value_st s)]"
    and "timers (unmount s) = []" and "length (timers s) = 1"
  using assms
  by (auto simp: unmount_def unmount_cleanup_upd debounce_cleanup_upd at_rest_def
      split: list.splits)

lemma unmount_clean: "at_rest s \<Longrightarrow> \<not> dirty s \<Longrightarrow> unmount s = s"
  by (simp add: unmount_def unmount_cleanup_upd debounce_cleanup_upd at_rest_def)

section \<open>The claims\<close>

text \<open>Hook results used where a concrete run is evaluated.\<close>

definition e0 :: hooks where
  "e0 = \<lparr>workspaceId = ''a'', content = Some ''hello'', isLoading = False, error = None,
          saveMutation = 0, isPending = False\<rparr>"

subsection \<open>Document switch\<close>

text \<open>
  Claim C1 says that a change of the document identifier while the Dirty Flag is true
  issues a save request for the outgoing document before the state is reset. The
  component does not: when the identifier changes and the save hook returns the same
  object as before, the cleanup of the debounce effect clears the timer, the reset
  effect clears the Dirty Flag, and no \<^verbatim>\<open>mutate\<close> is called, neither then nor by any
  later render, wait or unmount. The buffer is then replaced by the loaded content of
  the new document, so the last edit of the outgoing document is lost.
\<close>

theorem switch_while_dirty_issues_no_save:
  assumes "dirty (run evs (mount e))"
    and "newId \<noteq> workspaceId (env (run evs (mount e)))"
    and "list_all (\<lambda>ev. \<not> is_edit ev) later"
  shows "saves (switch newId c (run evs (mount e))) = saves (run evs (mount e))
       \<and> \<not> dirty (switch newId c (run evs (mount e)))
       \<and> timers (switch newId c (run evs (mount e))) = []
       \<and> value_st (switch newId c (run evs (mount e))) =
           (case c of None \<Rightarrow> value_st (run evs (mount e)) | Some x \<Rightarrow> x)
       \<and> saves (unmount (run later (switch newId c (run evs (mount e))))) =
           saves (run evs (mount e))"
proof -
  let ?s = "run evs (mount e)"
  let ?s' = "switch newId c ?s"
  have r: "at_rest ?s" by (rule at_rest_reachable)
  note sw = switch_dirty[OF r assms(1,2), of c]
  have l: "\<not> dirty (run later ?s') \<and> saves (run later ?s') = saves ?s'"
    using sw(1,2) assms(3) by (rule run_stays_clean)
  have "at_rest (run later ?s')" using sw(1) by (rule at_rest_run)
  with l have "unmount (run later ?s') = run later ?s'" by (simp add: unmount_clean)
  with l sw show ?thesis by simp
qed

theorem switch_while_dirty_issues_no_save_witness:
  "dirty (run [Edit ''abc''] (mount e0))
   \<and> value_st (run [Edit ''abc''] (mount e0)) = ''abc''
   \<and> saves (run [Edit ''abc''] (mount e0)) = []
   \<and> ''b'' \<noteq> workspaceId (env (run [Edit ''abc''] (mount e0)))
   \<and> saves (switch ''b'' (Some ''other'') (run [Edit ''abc''] (mount e0))) = []
   \<and> \<not> dirty (switch ''b'' (Some ''other'') (run [Edit ''abc''] (mount e0)))
   \<and> value_st (switch ''b'' (Some ''other'') (run [Edit ''abc''] (mount e0))) = ''other''
   \<and> saves (unmount (run [Wait 5000] (switch ''b'' (Some ''other'') (run [Edit ''abc''] (mount e0))))) = []"
proof -
  have d: "dirty (run [Edit ''abc''] (mount e0))" by code_simp
  have w: "''b'' \<noteq> workspaceId (env (run [Edit ''abc''] (mount e0)))" by code_simp
  have v: "value_st (run [Edit ''abc''] (mount e0)) = ''abc''" by code_simp
  have s: "saves (run [Edit ''abc''] (mount e0)) = []" by code_simp
  have l: "list_all (\<lambda>ev. \<not> is_edit ev) [Wait 5000]" by simp
  from switch_while_dirty_issues_no_save[OF d w l, of "Some ''other''"] d w v s
  show ?thesis by simp
qed

subsection \<open>Teardown\<close>

text \<open>
  Claim C2. Whenever the component is unmounted while the Dirty Flag is true, exactly one
  save request is issued by the unmount itself. It carries the identifier and the buffer
  the refs hold, which are the current identifier and the content of the last edit. The
  debounce timer was still pending (it had not fired) and is cancelled, so no second
  request follows.
\<close>

theorem teardown_flushes_last_edit:
  assumes "dirty (run evs (mount e))"
  shows "saves (unmount (run evs (mount e))) =
           saves (run evs (mount e)) @ [(workspaceId (env (run evs (mount e))), value_st (run evs (mount e)))]
         \<and> last_edit evs = Some (value_st (run evs (mount e)))
         \<and> length (timers (run evs (mount e))) = 1
         \<and> timers (unmount (run evs (mount e))) = []"
  using assms unmount_dirty[OF at_rest_reachable assms] dirty_reachable_last_edit[OF assms]
  by simp

theorem teardown_flushes_last_edit_witness:
  "dirty (run [Edit ''abc'', Wait 10] (mount e0))
   \<and> saves (unmount (run [Edit ''abc'', Wait 10] (mount e0))) = [(''a'', ''abc'')]
   \<and> timers (unmount (run [Edit ''abc'', Wait 10] (mount e0))) = []"
proof -
  have d: "dirty (run [Edit ''abc'', Wait 10] (mount e0))" by code_simp
  have s: "saves (run [Edit ''abc'', Wait 10] (mount e0)) = []" by code_simp
  have w: "workspaceId (env (run [Edit ''abc'', Wait 10] (mount e0))) = ''a''" by code_simp
  have v: "last_edit [Edit ''abc'', Wait 10] = Some ''abc''" by simp
  from teardown_flushes_last_edit[OF d] d s w v show ?thesis by simp
qed

subsection \<open>Debounce coalescing\<close>

text \<open>
  Claim C3, as amended. Start from a clean component. For every burst of one or more
  edits in which each edit arrives less than 1000 ms after the previous one and carries
  a content different from the previous edit's, the hook results staying as they are,
  no save request is issued at any point of the burst, none during the 1000 ms after
  the last edit, and from then on exactly one has been issued, carrying the current
  identifier and the content of the last edit; the Dirty Flag is true until then and
  false afterwards.
\<close>

theorem debounce_coalesces:
  assumes "\<not> dirty (run evs (mount e))"
    and "distinct_adj (map fst ps @ [v])"
    and "\<forall>p\<in>set ps. snd p < quiet_period"
  shows "(\<forall>n. saves (run (take n (burst ps @ [Edit v])) (run evs (mount e))) =
              saves (run evs (mount e)))
       \<and> saves (advance d (run (burst ps @ [Edit v]) (run evs (mount e)))) =
           (if d < quiet_period then saves (run evs (mount e))
            else saves (run evs (mount e)) @ [(workspaceId (env (run evs (mount e))), v)])
       \<and> dirty (advance d (run (burst ps @ [Edit v]) (run evs (mount e)))) = (d < quiet_period)"
proof -
  let ?a = "run evs (mount e)"
  let ?s = "run (burst ps @ [Edit v]) ?a"
  have r0: "at_rest ?a" by (rule at_rest_reachable)
  have b: "at_rest ?s \<and> saves ?s = saves ?a \<and> env ?s = env ?a \<and> dirty ?s \<and> value_st ?s = v
       \<and> map remaining (timers ?s) = [quiet_period]
       \<and> (\<forall>n. saves (run (take n (burst ps @ [Edit v])) ?a) = saves ?a)"
    by (rule burst_coalesces[OF r0 _ assms(2,3)]) (simp add: assms(1))
  then have r: "at_rest ?s" and d: "dirty ?s" by simp_all
  from b have h: "remaining (hd (timers ?s)) = quiet_period"
    by (cases "timers ?s") simp_all
  note f = fired_fields[OF r d]
  show ?thesis
  proof (cases "d < quiet_period")
    case True
    with b h show ?thesis by (simp add: advance_cases[OF r])
  next
    case False
    with b h f show ?thesis by (simp add: advance_cases[OF r])
  qed
qed

theorem debounce_coalesces_witness:
  "\<not> dirty (run [] (mount e0))
   \<and> distinct_adj (map fst [(''h'', 100), (''he'', 999)] @ [''hey''])
   \<and> (100::nat) < quiet_period \<and> (999::nat) < quiet_period
   \<and> saves (run (burst [(''h'', 100), (''he'', 999)] @ [Edit ''hey'']) (run [] (mount e0))) = []
   \<and> saves (advance 1000 (run (burst [(''h'', 100), (''he'', 999)] @ [Edit ''hey''])
        (run [] (mount e0)))) = [(''a'', ''hey'')]
   \<and> saves (advance 3000 (run (burst [(''h'', 100), (''he'', 999)] @ [Edit ''hey''])
        (run [] (mount e0)))) = [(''a'', ''hey'')]"
proof -
  have d: "\<not> dirty (run [] (mount e0))" by (simp add: mount_fields)
  have a: "distinct_adj (map fst [(''h'', 100::nat), (''he'', 999)] @ [''hey''])" by simp
  have g: "\<forall>p\<in>set [(''h'', 100::nat), (''he'', 999)]. snd p < quiet_period"
    by (simp add: quiet_period_def)
  have s: "saves (run [] (mount e0)) = []" "workspaceId (env (run [] (mount e0))) = ''a''"
    by (simp_all add: mount_fields e0_def)
  have t: "take 5 (burst [(''h'', 100), (''he'', 999)] @ [Edit ''hey'']) =
      burst [(''h'', 100), (''he'', 999)] @ [Edit ''hey'']" by simp
  note c = debounce_coalesces[OF d a g]
  from c[of 1000] c[of 3000] c[THEN conjunct1, THEN spec, of 5] d a g s t show ?thesis
    by (simp add: quiet_period_def)
qed

text \<open>
  Claim C3 as stated fails when an edit repeats the content of the one before: three
  edits to \<open>''a''\<close>, 600 ms apart, are each within the quiet period of the previous
  one, yet the timer armed by the first fires between the second and the third, and the
  third arms a new one. Two save requests result, one of them during the burst.
\<close>

theorem repeated_edits_flush_twice:
  "(600::nat) < quiet_period
   \<and> saves (run (burst [(''a'', 600), (''a'', 600)]) (mount e0)) = [(''a'', ''a'')]
   \<and> saves (advance quiet_period (run (burst [(''a'', 600), (''a'', 600)] @ [Edit ''a''])
        (mount e0))) = [(''a'', ''a''), (''a'', ''a'')]"
  by code_simp

subsection \<open>Loads\<close>

text \<open>
  Claim C4. When loaded content resolves, a clean buffer is replaced by it and a dirty
  buffer is left as it is, the Dirty Flag staying as it was; in particular an edit made
  before the load resolves is not overwritten.
\<close>

theorem load_respects_dirty:
  "value_st (loaded c (run evs (mount e))) =
     (if dirty (run evs (mount e)) then value_st (run evs (mount e)) else c)
   \<and> dirty (loaded c (run evs (mount e))) = dirty (run evs (mount e))
   \<and> value_st (loaded c (onChange val (run evs (mount e)))) = val"
proof -
  let ?s = "run evs (mount e)"
  have r: "at_rest ?s" by (rule at_rest_reachable)
  have r': "at_rest (onChange val ?s)" using r by (rule at_rest_onChange)
  show ?thesis
    using onChange_cells[OF r, of val]
    by (simp add: loaded_def rerender_fields[OF r] rerender_fields[OF r'])
qed

subsection \<open>Optimistic clearing\<close>

text \<open>
  Claim C5. The timer callback calls \<^verbatim>\<open>mutate\<close> and clears the Dirty Flag in the same
  step, whatever the save hook reports. Once the quiet period has passed on a dirty
  component, the request has been issued and the flag is false; and whatever follows
  short of a new edit (renders with any hook results, among them those of a failed
  save, and any waiting) leaves the flag false and issues no further request.
\<close>

theorem dirty_cleared_on_issue:
  assumes "dirty (run evs (mount e))"
    and "list_all (\<lambda>ev. \<not> is_edit ev) later"
  shows "\<not> dirty (timer_callback t x)
       \<and> saves (timer_callback t x) = saves x @ [(t_wsId t, t_content t)]
       \<and> saves (advance quiet_period (run evs (mount e))) =
           saves (run evs (mount e)) @
             [(workspaceId (env (run evs (mount e))), value_st (run evs (mount e)))]
       \<and> \<not> dirty (advance quiet_period (run evs (mount e)))
       \<and> \<not> dirty (run later (advance quiet_period (run evs (mount e))))
       \<and> saves (run later (advance quiet_period (run evs (mount e)))) =
           saves (advance quiet_period (run evs (mount e)))"
proof -
  let ?s = "run evs (mount e)"
  have r: "at_rest ?s" by (rule at_rest_reachable)
  note f = fired_fields[OF r assms(1)]
  have a: "advance quiet_period ?s = fired ?s" using r assms(1) by (rule debounce_fires)
  have l: "\<not> dirty (run later (fired ?s)) \<and> saves (run later (fired ?s)) = saves (fired ?s)"
    using f(1,2) assms(2) by (rule run_stays_clean)
  have "\<not> dirty (timer_callback t x) \<and> saves (timer_callback t x) = saves x @ [(t_wsId t, t_content t)]"
    by (simp add: timer_callback_def setDirty_def mutate_def)
  with l f show ?thesis unfolding a by simp
qed

theorem dirty_cleared_on_issue_witness:
  "dirty (run [Edit ''abc''] (mount e0))
   \<and> saves (advance quiet_period (run [Edit ''abc''] (mount e0))) = [(''a'', ''abc'')]
   \<and> \<not> dirty (advance quiet_period (run [Edit ''abc''] (mount e0)))
   \<and> \<not> dirty (run [Render (e0\<lparr>saveMutation := 1, isPending := False\<rparr>), Wait 5000]
         (advance quiet_period (run [Edit ''abc''] (mount e0))))
   \<and> saves (run [Render (e0\<lparr>saveMutation := 1, isPending := False\<rparr>), Wait 5000]
         (advance quiet_period (run [Edit ''abc''] (mount e0)))) = [(''a'', ''abc'')]"
proof -
  have d: "dirty (run [Edit ''abc''] (mount e0))" by code_simp
  have w: "workspaceId (env (run [Edit ''abc''] (mount e0))) = ''a''" by code_simp
  have v: "value_st (run [Edit ''abc''] (mount e0)) = ''abc''" by code_simp
  have s: "saves (run [Edit ''abc''] (mount e0)) = []" by code_simp
  have l: "list_all (\<lambda>ev. \<not> is_edit ev)
      [Render (e0\<lparr>saveMutation := 1, isPending := False\<rparr>), Wait 5000]" by simp
  from dirty_cleared_on_issue[OF d l] d w v s show ?thesis by simp
qed

subsection \<open>A single live timer\<close>

text \<open>
  Claim C6. At most one timer is pending in every state a run passes through. After a
  burst of one or more edits on a clean component exactly one is pending, and the
  number of \<^verbatim>\<open>clearTimeout\<close> calls is the number of \<^verbatim>\<open>setTimeout\<close> calls minus one,
  counted since mount and counted over the burst alone. Pauses of any length are
  allowed between the edits, so in particular those shorter than the quiet period.
\<close>

theorem single_live_timer:
  assumes "\<not> dirty (run evs (mount e))"
  shows "(\<forall>n. length (timers (run (take n (burst ps @ [Edit v])) (run evs (mount e)))) \<le> 1)
       \<and> length (timers (run (burst ps @ [Edit v]) (run evs (mount e)))) = 1
       \<and> int (cancels (run (burst ps @ [Edit v]) (run evs (mount e)))) =
           int (arms (run (burst ps @ [Edit v]) (run evs (mount e)))) - 1
       \<and> int (cancels (run (burst ps @ [Edit v]) (run evs (mount e))))
           - int (cancels (run evs (mount e))) =
         int (arms (run (burst ps @ [Edit v]) (run evs (mount e))))
           - int (arms (run evs (mount e))) - 1"
proof -
  let ?a = "run evs (mount e)"
  let ?s = "run (burst ps @ [Edit v]) ?a"
  have r0: "at_rest ?a" by (rule at_rest_reachable)
  have "at_rest (run (take n (burst ps @ [Edit v])) ?a)" for n
    using r0 by (rule at_rest_run)
  then have one: "length (timers (run (take n (burst ps @ [Edit v])) ?a)) \<le> 1" for n
    by (simp add: at_rest_timers)
  have r: "at_rest ?s" using r0 by (rule at_rest_run)
  have "?s = onChange v (run (burst ps) ?a)" by (simp add: run_append)
  moreover have "at_rest (run (burst ps) ?a)" using r0 by (rule at_rest_run)
  ultimately have d: "dirty ?s" by (simp add: onChange_cells)
  from at_rest_counts[OF r] at_rest_counts[OF r0] at_rest_timers[OF r] d assms one
  show ?thesis by simp
qed

theorem single_live_timer_witness:
  "\<not> dirty (run [Edit ''x'', Wait 1000] (mount e0))
   \<and> arms (run [Edit ''x'', Wait 1000] (mount e0)) = 1
   \<and> cancels (run [Edit ''x'', Wait 1000] (mount e0)) = 1
   \<and> length (timers (run (burst [(''a'', 10), (''b'', 20)] @ [Edit ''c''])
        (run [Edit ''x'', Wait 1000] (mount e0)))) = 1
   \<and> int (cancels (run (burst [(''a'', 10), (''b'', 20)] @ [Edit ''c''])
        (run [Edit ''x'', Wait 1000] (mount e0)))) =
      int (arms (run (burst [(''a'', 10), (''b'', 20)] @ [Edit ''c''])
        (run [Edit ''x'', Wait 1000] (mount e0)))) - 1"
proof -
  have d: "\<not> dirty (run [Edit ''x'', Wait 1000] (mount e0))" by code_simp
  have a: "arms (run [Edit ''x'', Wait 1000] (mount e0)) = 1" by code_simp
  have c: "cancels (run [Edit ''x'', Wait 1000] (mount e0)) = 1" by code_simp
  from single_live_timer[OF d, of "[(''a'', 10), (''b'', 20)]" "''c''"] d a c
  show ?thesis by simp
qed

subsection \<open>Flushing a clean buffer\<close>

text \<open>
  Claim C7. In every state in which the Dirty Flag is false, neither flush path does
  anything: the debounce effect returns at once and arms nothing, no amount of waiting
  makes a timer fire, and the unmount cleanups issue no save request. The state,
  including the list of save requests, is unchanged.
\<close>

theorem flush_idempotent:
  assumes "\<not> dirty (run evs (mount e))"
  shows "debounce_effect (snapshot_of (run evs (mount e))) (run evs (mount e)) = run evs (mount e)
      \<and> advance ms (run evs (mount e)) = run evs (mount e)
      \<and> unmount (run evs (mount e)) = run evs (mount e)"
proof -
  let ?s = "run evs (mount e)"
  have r: "at_rest ?s" by (rule at_rest_reachable)
  have "debounce_effect (snapshot_of ?s) ?s = ?s"
    using r assms by (simp add: debounce_effect_def snapshot_of_def at_rest_def)
  with advance_fields(3)[OF r assms] unmount_clean[OF r assms] show ?thesis by simp
qed

theorem flush_idempotent_witness:
  "\<not> dirty (run [Edit ''abc'', Wait 1000] (mount e0))
   \<and> saves (run [Edit ''abc'', Wait 1000] (mount e0)) = [(''a'', ''abc'')]
   \<and> saves (unmount (run [Edit ''abc'', Wait 1000] (mount e0))) = [(''a'', ''abc'')]
   \<and> saves (advance 5000 (run [Edit ''abc'', Wait 1000] (mount e0))) = [(''a'', ''abc'')]"
proof -
  have d: "\<not> dirty (run [Edit ''abc'', Wait 1000] (mount e0))" by code_simp
  have s: "saves (run [Edit ''abc'', Wait 1000] (mount e0)) = [(''a'', ''abc'')]" by code_simp
  from flush_idempotent[OF d, of 5000] d s show ?thesis by simp
qed

subsection \<open>Edits\<close>

text \<open>
  Claim C8, as amended. For every string, an edit replaces the buffer with it and sets
  the Dirty Flag, and afterwards exactly one timer is pending, carrying that string. The
  timer is a fresh one with the full quiet period whenever the edit changed the buffer
  or the flag; an edit that repeats the content of a buffer that is already dirty
  changes no cell, so no effect runs and the pending timer keeps the time it had left.
\<close>

theorem edit_sets_buffer_and_dirty:
  "value_st (onChange val (run evs (mount e))) = val
   \<and> dirty (onChange val (run evs (mount e)))
   \<and> timers (onChange val (run evs (mount e))) =
       (if value_st (run evs (mount e)) = val \<and> dirty (run evs (mount e))
        then timers (run evs (mount e))
        else [\<lparr>handle = next_handle (run evs (mount e)), remaining = quiet_period,
               t_wsId = workspaceId (env (run evs (mount e))), t_content = val\<rparr>])
   \<and> map t_content (timers (onChange val (run evs (mount e)))) = [val]"
proof -
  let ?s = "run evs (mount e)"
  have r: "at_rest ?s" by (rule at_rest_reachable)
  have c: "value_st (onChange val ?s) = val" "dirty (onChange val ?s)"
    using onChange_cells[OF r, of val] by simp_all
  have t: "timers (onChange val ?s) =
       (if value_st ?s = val \<and> dirty ?s then timers ?s
        else [\<lparr>handle = next_handle ?s, remaining = quiet_period,
               t_wsId = workspaceId (env ?s), t_content = val\<rparr>])"
    using r by (auto simp: onChange_noop onChange_timers)
  have "map t_content (timers (onChange val ?s)) = [val]"
    using at_rest_onChange[OF r, of val] c
    by (auto simp: at_rest_def split: list.splits)
  with c t show ?thesis by simp
qed

text \<open>
  Claim C8 as stated fails on a repeated edit: 600 ms after an edit to \<open>''a''\<close> the timer
  has 400 ms left, and a second edit to \<open>''a''\<close> neither arms nor cancels a timer and
  leaves the 400 ms.
\<close>

theorem repeated_edit_does_not_rearm:
  "map remaining (timers (run [Edit ''a'', Wait 600] (mount e0))) = [400]
   \<and> map remaining (timers (onChange ''a'' (run [Edit ''a'', Wait 600] (mount e0)))) = [400]
   \<and> arms (onChange ''a'' (run [Edit ''a'', Wait 600] (mount e0))) =
       arms (run [Edit ''a'', Wait 600] (mount e0))
   \<and> cancels (onChange ''a'' (run [Edit ''a'', Wait 600] (mount e0))) =
       cancels (run [Edit ''a'', Wait 600] (mount e0))"
  by code_simp

subsection \<open>The status footer\<close>

text \<open>
  Claim C9. The status text is a function of the pending flag of the save hook and of
  the Dirty Flag: \<open>Saving...\<close> whenever a save is pending, whatever the flag, else
  \<open>Unsaved\<close> when dirty, else \<open>Saved\<close>; and this is the text the editor view shows.
\<close>

theorem status_signal:
  "status_text True d = ''Saving...'' \<and> status_text False True = ''Unsaved''
   \<and> status_text False False = ''Saved''
   \<and> render (s\<lparr>env := (env s)\<lparr>isLoading := False, error := None\<rparr>\<rparr>) =
       Editor_view (value_st s) (status_text (isPending (env s)) (dirty s))"
  by (simp add: status_text_def render_def)

subsection \<open>Loads after a save\<close>

text \<open>
  Claim C10. Once the debounced save of a dirty component has fired, the Dirty Flag is
  false, and a load that resolves afterwards, at once or after further renders and
  waiting, replaces the buffer with the loaded content, whatever that content is: the
  component compares nothing but the flag.
\<close>

theorem load_after_save_overwrites:
  assumes "dirty (run evs (mount e))"
    and "list_all (\<lambda>ev. \<not> is_edit ev) later"
  shows "saves (advance quiet_period (run evs (mount e))) =
           saves (run evs (mount e)) @
             [(workspaceId (env (run evs (mount e))), value_st (run evs (mount e)))]
       \<and> \<not> dirty (advance quiet_period (run evs (mount e)))
       \<and> value_st (loaded c (run later (advance quiet_period (run evs (mount e))))) = c"
proof -
  let ?s = "run evs (mount e)"
  have r: "at_rest ?s" by (rule at_rest_reachable)
  note f = fired_fields[OF r assms(1)]
  have a: "advance quiet_period ?s = fired ?s" using r assms(1) by (rule debounce_fires)
  have l: "\<not> dirty (run later (fired ?s)) \<and> saves (run later (fired ?s)) = saves (fired ?s)"
    using f(1,2) assms(2) by (rule run_stays_clean)
  have r': "at_rest (run later (fired ?s))" using f(1) by (rule at_rest_run)
  have "value_st (loaded c (run later (fired ?s))) = c"
    using l by (simp add: loaded_def rerender_fields[OF r'])
  with f show ?thesis unfolding a by simp
qed

theorem load_after_save_overwrites_witness:
  "dirty (run [Edit ''hello world''] (mount e0))
   \<and> saves (advance quiet_period (run [Edit ''hello world''] (mount e0))) = [(''a'', ''hello world'')]
   \<and> value_st (loaded ''hello'' (run [Wait 50] (advance quiet_period (run [Edit ''hello world''] (mount e0))))) = ''hello''"
proof -
  have d: "dirty (run [Edit ''hello world''] (mount e0))" by code_simp
  have w: "workspaceId (env (run [Edit ''hello world''] (mount e0))) = ''a''" by code_simp
  have v: "value_st (run [Edit ''hello world''] (mount e0)) = ''hello world''" by code_simp
  have s: "saves (run [Edit ''hello world''] (mount e0)) = []" by code_simp
  have l: "list_all (\<lambda>ev. \<not> is_edit ev) [Wait 50]" by simp
  from load_after_save_overwrites[OF d l, of "''hello''"] d w v s show ?thesis by simp
qed

end
